theory Spec2Isabelle
  imports Main "HOL-Library.Word"
begin

section \<open>Errors and bytes\<close>

text \<open>
  Go's \<^verbatim>\<open>error\<close> values that this package creates or passes on. \<^verbatim>\<open>nil\<close> is \<open>None\<close>.
  The two sentinels are the package variables of codec.go; \<open>Errorf\<close> is the value of a
  \<^verbatim>\<open>fmt.Errorf\<close> call whose format has no \<^verbatim>\<open>%w\<close> verb (a fresh error that wraps nothing),
  carrying its message; \<open>Canceled\<close> and \<open>DeadlineExceeded\<close> are the two errors of the
  standard context package; \<open>Foreign\<close> is an error made outside this package (inner codec,
  zlib, encoding/json, the caller's load function).
\<close>

datatype goerror =
    ErrDecompressZeroLengthData
  | ErrUnsupportedCompressionTypeID
  | Errorf string
  | Canceled
  | DeadlineExceeded
  | Foreign string

type_synonym error = "goerror option"

type_synonym byte = "8 word"

text \<open>
  \<^verbatim>\<open>errors.Is(err, target)\<close> on these values: none of them wraps another error, so the
  chain of \<open>err\<close> is \<open>err\<close> itself and the test is equality with the target.
\<close>

definition errorsIs :: "error \<Rightarrow> goerror \<Rightarrow> bool" where
  "errorsIs err target = (err = Some target)"

text \<open>The text \<^verbatim>\<open>%d\<close> prints for a non-negative integer.\<close>

definition digit :: "nat \<Rightarrow> char" where
  "digit d = ''0123456789'' ! d"

fun decimal :: "nat \<Rightarrow> string" where
  "decimal n = (if n < 10 then [digit n] else decimal (n div 10) @ [digit (n mod 10)])"

declare decimal.simps [simp del]

section \<open>Cache objects and codecs (codec.go)\<close>

text \<open>
  Modelled from the spec: the struct \<^verbatim>\<open>CacheObject[V]\<close>, declared outside the files at
  hand; codec.go and its tests use its two fields \<^verbatim>\<open>Value\<close> and \<^verbatim>\<open>ExpireAtMillis\<close> (an int64:
  a 64-bit word, read with \<open>sint\<close>).
  Go's zero value of \<open>V\<close> is the \<open>0\<close> of class \<open>zero\<close>.
\<close>

record 'v CacheObject =
  Value :: 'v
  ExpireAtMillis :: "64 word"

definition zeroCacheObject :: "('v::zero) CacheObject" where
  "zeroCacheObject = \<lparr>Value = 0, ExpireAtMillis = 0\<rparr>"

text \<open>
  The interface \<^verbatim>\<open>CacheStorageCodec[V, []byte]\<close>: both methods return a Go pair
  (value, error). \<open>releasePolicy\<close> is \<open>Some b\<close> when the codec also implements
  \<^verbatim>\<open>BufferReleasePolicy\<close> with \<^verbatim>\<open>CanReleaseBufferOnDecode() = b\<close>, and \<open>None\<close> when it does not.
\<close>

record 'v byteCodec =
  codecEncode :: "'v CacheObject \<Rightarrow> byte list \<times> error"
  codecDecode :: "byte list \<Rightarrow> 'v CacheObject \<times> error"
  releasePolicy :: "bool option"

subsection \<open>NoopCacheStorageCodec\<close>



subsection \<open>JSONByteStringCodec\<close>

text \<open>
  The standard library's encoding/json is a parameter: \<open>jsonMarshal\<close> is the JSON text of
  a cache object with HTML escaping off (or the encoder's error), \<open>jsonUnmarshal\<close> is what
  \<^verbatim>\<open>json.Unmarshal(data, &out)\<close> leaves in \<open>out\<close> together with its error.
  \<^verbatim>\<open>Encoder.Encode\<close> writes that text followed by one newline character, and writes nothing
  when it fails.
\<close>

record 'v jsonLib =
  jsonMarshal :: "'v CacheObject \<Rightarrow> byte list \<times> error"
  jsonUnmarshal :: "byte list \<Rightarrow> 'v CacheObject \<times> error"

definition encoderEncode :: "'v jsonLib \<Rightarrow> 'v CacheObject \<Rightarrow> byte list \<times> error" where
  "encoderEncode lib value =
     (case jsonMarshal lib value of
        (text, None) \<Rightarrow> (text @ [0x0A], None)
      | (text, Some e) \<Rightarrow> ([], Some e))"

definition JSONEncode :: "'v jsonLib \<Rightarrow> 'v CacheObject \<Rightarrow> byte list \<times> error" where
  "JSONEncode lib value =
     (case encoderEncode lib value of
        (buf, Some e) \<Rightarrow> ([], Some e)
      | (b, None) \<Rightarrow>
          (if length b > 0 \<and> b ! (length b - 1) = 0x0A
           then (take (length b - 1) b, None)
           else (b, None)))"

definition JSONDecode :: "('v::zero) jsonLib \<Rightarrow> byte list \<Rightarrow> 'v CacheObject \<times> error" where
  "JSONDecode lib data =
     (case jsonUnmarshal lib data of
        (out, Some e) \<Rightarrow> (zeroCacheObject, Some e)
      | (out, None) \<Rightarrow> (out, None))"

definition JSONByteStringCodec :: "('v::zero) jsonLib \<Rightarrow> 'v byteCodec" where
  "JSONByteStringCodec lib =
     \<lparr>codecEncode = JSONEncode lib, codecDecode = JSONDecode lib, releasePolicy = Some True\<rparr>"

subsection \<open>binaryCompressionCodec\<close>

definition CompressionTypeIDNone :: byte where
  "CompressionTypeIDNone = 0x00"

definition CompressionTypeIDZlib :: byte where
  "CompressionTypeIDZlib = 0x01"

text \<open>
  compress/zlib is a parameter: \<open>compressZlib\<close> gives the bytes the zlib writer leaves in
  the buffer and the error of \<^verbatim>\<open>Write\<close> or \<^verbatim>\<open>Close\<close>; \<open>decompressZlib\<close> gives the bytes read
  from the zlib reader and the error of \<^verbatim>\<open>NewReader\<close> or \<^verbatim>\<open>ReadFrom\<close>.
\<close>

record zlibLib =
  compressZlib :: "byte list \<Rightarrow> byte list \<times> error"
  decompressZlib :: "byte list \<Rightarrow> byte list \<times> error"

text \<open>
  The struct without its \<^verbatim>\<open>bufPool\<close>: the pooled buffers are scratch space whose bytes are
  copied into the result (Encode) or handed to the inner decoder (Decode); with byte
  lists as values the pool changes no result. \<open>compressThresholdBytes\<close> is a Go \<^verbatim>\<open>int\<close>
  that is only compared, never computed with, so it is an \<open>int\<close> here.
\<close>

record 'v binaryCompressionCodec =
  inner :: "'v byteCodec"
  compressThresholdBytes :: int
  canReleaseBufferOnDecode :: bool

definition NewBinaryCompressionCodec :: "'v byteCodec \<Rightarrow> int \<Rightarrow> 'v binaryCompressionCodec" where
  "NewBinaryCompressionCodec inr thr =
     \<lparr>inner = inr,
      compressThresholdBytes = thr,
      canReleaseBufferOnDecode = (case releasePolicy inr of Some p \<Rightarrow> p | None \<Rightarrow> False)\<rparr>"

definition Encode :: "zlibLib \<Rightarrow> 'v binaryCompressionCodec \<Rightarrow> 'v CacheObject \<Rightarrow> byte list \<times> error" where
  "Encode zl b value =
     (case codecEncode (inner b) value of
        (innerBuf, Some e) \<Rightarrow> ([], Some e)
      | (innerBuf, None) \<Rightarrow>
          (if compressThresholdBytes b < 0 \<or> int (length innerBuf) < compressThresholdBytes b
           then (CompressionTypeIDNone # innerBuf, None)
           else
             (case compressZlib zl innerBuf of
                (compressBuf, Some e) \<Rightarrow> ([], Some e)
              | (compressBuf, None) \<Rightarrow> (CompressionTypeIDZlib # compressBuf, None))))"

text \<open>
  Decode returns the Go pair and, beside it, the inputs with which it called the inner
  codec's Decode, in order.
\<close>

definition Decode ::
  "zlibLib \<Rightarrow> ('v::zero) binaryCompressionCodec \<Rightarrow> byte list
     \<Rightarrow> ('v CacheObject \<times> error) \<times> byte list list" where
  "Decode zl b data =
     (case data of
        [] \<Rightarrow> ((zeroCacheObject, Some ErrDecompressZeroLengthData), [])
      | compressionTypeID # compressedData \<Rightarrow>
          (if compressionTypeID = CompressionTypeIDNone
           then (codecDecode (inner b) compressedData, [compressedData])
           else if compressionTypeID = CompressionTypeIDZlib
           then
             (case decompressZlib zl compressedData of
                (decompressBuf, Some e) \<Rightarrow> ((zeroCacheObject, Some e), [])
              | (decompressBuf, None) \<Rightarrow> (codecDecode (inner b) decompressBuf, [decompressBuf]))
           else
             ((zeroCacheObject,
               Some (Errorf (''unsupported compression type: '' @ decimal (unat compressionTypeID)))),
              [])))"

section \<open>Contexts (standard library package context)\<close>

text \<open>
  The contexts loader.go builds and receives, as terms. \<open>WithCancel c p\<close> is the context
  returned by \<^verbatim>\<open>context.WithCancel(p)\<close>, \<open>c\<close> naming its \<^verbatim>\<open>CancelFunc\<close>;
  \<open>WithoutCancel p\<close> is \<^verbatim>\<open>context.WithoutCancel(p)\<close>; \<open>WithDeadline d p\<close> is a context
  with deadline \<open>d\<close> (a point in time, in nanoseconds) derived from \<open>p\<close>.
  \<open>ctxDone cs now c\<close> says whether \<^verbatim>\<open>c.Done()\<close> is closed once the cancel functions in
  \<open>cs\<close> have been called and the clock shows \<open>now\<close>; \<open>ctxDeadline\<close> is \<^verbatim>\<open>c.Deadline()\<close>.
  As the package documents, a context made by \<^verbatim>\<open>WithoutCancel\<close> is never done and has no
  deadline, whatever its parent.
\<close>

datatype "context" =
    Background
  | WithCancel nat "context"
  | WithoutCancel "context"
  | WithDeadline nat "context"



section \<open>The singleflight loader (loader.go)\<close>

definition minShardCount :: int where
  "minShardCount = 8"

definition maxShardCount :: int where
  "maxShardCount = 32"

definition shardMultiplier :: int where
  "shardMultiplier = 2"

text \<open>
  The package variable \<^verbatim>\<open>shardCount\<close>, with \<^verbatim>\<open>runtime.GOMAXPROCS(0)\<close> as its argument.
\<close>

definition shardCount :: "int \<Rightarrow> int" where
  "shardCount gomaxprocs = max (min (gomaxprocs * shardMultiplier) maxShardCount) minShardCount"

text \<open>
  The struct \<^verbatim>\<open>inflight[V]\<close>. \<open>cancel\<close> names the \<^verbatim>\<open>CancelFunc\<close> of \<open>ctx\<close>; \<open>doneCh\<close> is
  the state of the channel: \<open>True\<close> once it has been closed. The field \<^verbatim>\<open>done\<close> is
  \<open>done_flag\<close>, since \<open>done\<close> is a keyword of Isabelle.
\<close>

record 'v inflight =
  ctx :: "context"
  cancel :: nat
  refs :: int
  val :: 'v
  err :: error
  doneCh :: bool
  done_flag :: bool
  pooled :: bool

text \<open>\<^verbatim>\<open>&inflight[V]{}\<close>, what the pool's \<^verbatim>\<open>New\<close> allocates.\<close>

definition zeroInflight :: "('v::zero) inflight" where
  "zeroInflight =
     \<lparr>ctx = Background, cancel = 0, refs = 0, val = 0, err = None,
      doneCh = False, done_flag = False, pooled = False\<rparr>"

type_synonym addr = nat

text \<open>The calls made on the \<^verbatim>\<open>MetricsProvider\<close>, as a log.\<close>

datatype metric = RecordLoad "context" | RecordLoadConcurrency "context" int

text \<open>
  The loader and the part of the world it works on. \<open>shards\<close> holds the map of each shard
  (the mutex of a shard makes each of the three functions below one atomic step);
  \<open>inflightPool\<close> is the content of the \<^verbatim>\<open>sync.Pool\<close>; \<open>metrics\<close> is the log of calls on the
  metrics provider. Inflight records are shared between the shard maps, the pool and the
  callers through pointers: \<open>heap\<close> maps an address to the record stored there, and the
  addresses below \<open>allocated\<close> are the ones allocated so far. \<open>cancelled\<close> is the set of
  cancel functions that have been called and \<open>nextCancel\<close> the name of the next one.
  \<open>poolPuts\<close> logs the calls of \<^verbatim>\<open>inflightPool.Put\<close> and \<open>newInflights\<close> the records
  handed out by \<^verbatim>\<open>newInflight\<close>, in order.
\<close>

record 'v singleflightLoader =
  shards :: "(string \<Rightarrow> addr option) list"
  inflightPool :: "addr list"
  metrics :: "metric list"
  heap :: "addr \<Rightarrow> 'v inflight"
  allocated :: nat
  cancelled :: "nat set"
  nextCancel :: nat
  poolPuts :: "addr list"
  newInflights :: "addr list"

definition newSingleflightLoader :: "int \<Rightarrow> ('v::zero) singleflightLoader" where
  "newSingleflightLoader gomaxprocs =
     \<lparr>shards = replicate (nat (shardCount gomaxprocs)) Map.empty,
      inflightPool = [],
      metrics = [],
      heap = (\<lambda>a. zeroInflight),
      allocated = 0,
      cancelled = {},
      nextCancel = 0,
      poolPuts = [],
      newInflights = []\<rparr>"

text \<open>
  \<^verbatim>\<open>shardFor\<close> returns the index of the shard. \<open>hashKey\<close>, that is
  \<^verbatim>\<open>maphash.String(mapHashSeed, key)\<close>, is a parameter. The remainder is taken on uint64;
  with no shard at all Go panics on the division by zero (\<open>None\<close>).
\<close>

definition shardFor :: "(string \<Rightarrow> 64 word) \<Rightarrow> 'v singleflightLoader \<Rightarrow> string \<Rightarrow> nat option" where
  "shardFor hashKey l key =
     (if length (shards l) = 0 then None
      else Some (unat (hashKey key mod of_nat (length (shards l)))))"

text \<open>
  \<^verbatim>\<open>inflightPool.Get()\<close>: the pool hands out one of the records it holds or, at its own
  choice (the runtime may also have dropped what it held), a record newly allocated by
  \<^verbatim>\<open>New\<close>. The choice is the argument \<open>pick\<close>: \<open>Some i\<close> with \<open>i\<close> an index into the pool
  takes that record, anything else allocates.
\<close>

definition poolGet :: "nat option \<Rightarrow> ('v::zero) singleflightLoader \<Rightarrow> addr \<times> 'v singleflightLoader" where
  "poolGet pick l =
     (case pick of
        Some i \<Rightarrow>
          (if i < length (inflightPool l)
           then (inflightPool l ! i,
                 l\<lparr>inflightPool := take i (inflightPool l) @ drop (Suc i) (inflightPool l)\<rparr>)
           else (allocated l,
                 l\<lparr>heap := (heap l)(allocated l := zeroInflight), allocated := Suc (allocated l)\<rparr>))
      | None \<Rightarrow>
          (allocated l,
           l\<lparr>heap := (heap l)(allocated l := zeroInflight), allocated := Suc (allocated l)\<rparr>))"

definition newInflight ::
  "nat option \<Rightarrow> ('v::zero) singleflightLoader \<Rightarrow> context \<Rightarrow> addr \<times> 'v singleflightLoader" where
  "newInflight pick l c =
     (let cancelFn = nextCancel l;
          c' = WithCancel cancelFn (WithoutCancel c);
          (infl, l1) = poolGet pick l;
          r = (heap l1 infl)\<lparr>ctx := c', cancel := cancelFn, refs := 1, val := 0, err := None,
                            doneCh := False, done_flag := False, pooled := False\<rparr>
      in (infl, l1\<lparr>heap := (heap l1)(infl := r),
                  nextCancel := Suc cancelFn,
                  newInflights := newInflights l1 @ [infl]\<rparr>))"

text \<open>
  \<^verbatim>\<open>acquireInflight\<close> returns the new state, the record, the leader flag and the shard.
  The \<^verbatim>\<open>select\<close> with a \<^verbatim>\<open>default\<close> branch tests whether \<open>doneCh\<close> is closed. The Go
  variable \<^verbatim>\<open>inf\<close> is \<open>infl\<close> (\<open>inf\<close> is a constant of HOL), and a shard pointer is the
  index of the shard.
\<close>

definition acquireInflight ::
  "(string \<Rightarrow> 64 word) \<Rightarrow> nat option \<Rightarrow> ('v::zero) singleflightLoader \<Rightarrow> context \<Rightarrow> string
     \<Rightarrow> ('v singleflightLoader \<times> addr \<times> bool \<times> nat) option" where
  "acquireInflight hashKey pick l c key =
     (case shardFor hashKey l key of
        None \<Rightarrow> None
      | Some shard \<Rightarrow>
          (case (shards l ! shard) key of
             Some infl \<Rightarrow>
               (if doneCh (heap l infl)
                then
                  (let (newInf, l1) = newInflight pick l c
                   in Some (l1\<lparr>shards := (shards l1)[shard := (shards l1 ! shard)(key \<mapsto> newInf)]\<rparr>,
                            newInf, True, shard))
                else
                  Some (l\<lparr>heap := (heap l)(infl := (heap l infl)\<lparr>refs := refs (heap l infl) + 1\<rparr>)\<rparr>,
                        infl, False, shard))
           | None \<Rightarrow>
               (let (newInf, l1) = newInflight pick l c
                in Some (l1\<lparr>shards := (shards l1)[shard := (shards l1 ! shard)(key \<mapsto> newInf)]\<rparr>,
                         newInf, True, shard))))"

text \<open>
  \<^verbatim>\<open>finishInflight\<close>: closing a channel that is closed already panics (\<open>None\<close>).
\<close>

definition finishInflight ::
  "'v singleflightLoader \<Rightarrow> addr \<Rightarrow> nat \<Rightarrow> 'v \<Rightarrow> error \<Rightarrow> 'v singleflightLoader option" where
  "finishInflight l infl shard v e =
     (let r = heap l infl;
          refs0 = refs r;
          ctx0 = ctx r
      in if doneCh r then None
         else
           (let r1 = r\<lparr>val := v, err := e, done_flag := True, doneCh := True\<rparr>;
                l1 = (if refs r1 \<le> 0 \<and> \<not> pooled r1
                      then l\<lparr>heap := (heap l)(infl := r1\<lparr>pooled := True\<rparr>),
                             inflightPool := inflightPool l @ [infl],
                             poolPuts := poolPuts l @ [infl]\<rparr>
                      else l\<lparr>heap := (heap l)(infl := r1)\<rparr>)
            in Some (l1\<lparr>metrics := metrics l1 @ [RecordLoadConcurrency ctx0 refs0]\<rparr>)))"

definition releaseInflight ::
  "'v singleflightLoader \<Rightarrow> string \<Rightarrow> addr \<Rightarrow> nat \<Rightarrow> 'v singleflightLoader" where
  "releaseInflight l key infl shard =
     (let r1 = (heap l infl)\<lparr>refs := refs (heap l infl) - 1\<rparr>
      in if refs r1 \<le> 0
         then
           (let shards1 = (if (shards l ! shard) key = Some infl
                           then (shards l)[shard := (shards l ! shard)(key := None)]
                           else shards l);
                cancelled1 = insert (cancel r1) (cancelled l)
            in if done_flag r1 \<and> \<not> pooled r1
               then l\<lparr>shards := shards1, cancelled := cancelled1,
                      heap := (heap l)(infl := r1\<lparr>pooled := True\<rparr>),
                      inflightPool := inflightPool l @ [infl],
                      poolPuts := poolPuts l @ [infl]\<rparr>
               else l\<lparr>shards := shards1, cancelled := cancelled1,
                      heap := (heap l)(infl := r1)\<rparr>)
         else l\<lparr>heap := (heap l)(infl := r1)\<rparr>)"

subsection \<open>load\<close>

text \<open>
  A load function \<^verbatim>\<open>CacheLoadFunc[V]\<close> returns a Go pair (value, error) for the context
  it is run with; nothing stops it from returning a value beside a non-nil error.
\<close>

type_synonym 'v loadFunc = "context \<Rightarrow> 'v \<times> error"

text \<open>
  \<^verbatim>\<open>singleflightLoader.load\<close> blocks in its \<^verbatim>\<open>select\<close>, so it is two steps. \<open>load_begin\<close> is
  the part up to the \<^verbatim>\<open>select\<close>: it gives what the caller holds in its local variables
  (\<open>caller\<close>) and the goroutines it has started (\<open>task\<close>, at most one). \<open>leaderTask\<close> is
  the body of that goroutine. \<open>load_end\<close> is the part from the \<^verbatim>\<open>select\<close> on, for the
  branch that fired: \<open>CtxDone e\<close> when the caller's context is done, with \<open>e\<close> what
  \<^verbatim>\<open>ctx.Err()\<close> returns, and \<open>InflightDone\<close> when \<open>doneCh\<close> is closed (\<open>None\<close> while it is
  not: the branch cannot fire).
\<close>

record caller =
  ckey :: string
  cinfl :: addr
  cleader :: bool
  cshard :: nat

record 'v task =
  tctx :: "context"
  tinfl :: addr
  tshard :: nat
  tloader :: "'v loadFunc"

datatype wakeup = CtxDone goerror | InflightDone

definition load_begin ::
  "(string \<Rightarrow> 64 word) \<Rightarrow> nat option \<Rightarrow> ('v::zero) singleflightLoader \<Rightarrow> context \<Rightarrow> string
     \<Rightarrow> 'v loadFunc \<Rightarrow> ('v singleflightLoader \<times> caller \<times> 'v task list) option" where
  "load_begin hashKey pick l c key loader =
     (case acquireInflight hashKey pick l c key of
        None \<Rightarrow> None
      | Some (l1, infl, leader, shard) \<Rightarrow>
          Some (l1,
                \<lparr>ckey = key, cinfl = infl, cleader = leader, cshard = shard\<rparr>,
                (if leader
                 then [\<lparr>tctx = c, tinfl = infl, tshard = shard, tloader = loader\<rparr>]
                 else [])))"

definition leaderTask :: "'v singleflightLoader \<Rightarrow> 'v task \<Rightarrow> 'v singleflightLoader option" where
  "leaderTask l t =
     (let l1 = l\<lparr>metrics := metrics l @ [RecordLoad (tctx t)]\<rparr>;
          (v, e) = tloader t (ctx (heap l1 (tinfl t)))
      in finishInflight l1 (tinfl t) (tshard t) v e)"

definition load_end ::
  "('v::zero) singleflightLoader \<Rightarrow> caller \<Rightarrow> wakeup
     \<Rightarrow> (('v \<times> bool \<times> error) \<times> 'v singleflightLoader) option" where
  "load_end l c w =
     (case w of
        CtxDone e \<Rightarrow>
          Some ((0, cleader c, Some e), releaseInflight l (ckey c) (cinfl c) (cshard c))
      | InflightDone \<Rightarrow>
          (if \<not> doneCh (heap l (cinfl c)) then None
           else
             (let v = val (heap l (cinfl c));
                  e = err (heap l (cinfl c));
                  l1 = releaseInflight l (ckey c) (cinfl c) (cshard c)
              in if e \<noteq> None then Some ((0, cleader c, e), l1)
                 else Some ((v, cleader c, None), l1))))"


subsection \<open>Concurrent callers\<close>

text \<open>
  The callers of \<^verbatim>\<open>load\<close> run concurrently; every access to the shared state happens
  under the shard's mutex, so an execution is a sequence of the steps above. A state of
  the system is the loader, the callers that are between the two halves of \<^verbatim>\<open>load\<close>
  (by goroutine), the goroutines started and not yet run, and what the finished calls
  returned. \<open>Call\<close> is a caller entering \<^verbatim>\<open>load\<close>, \<open>Run i\<close> the \<open>i\<close>-th pending goroutine
  running its load function and \<^verbatim>\<open>finishInflight\<close>, \<open>Wake\<close> the \<^verbatim>\<open>select\<close> of a waiting
  caller firing. A step that cannot happen (a panic, a branch that is not ready, a
  goroutine that does not exist) is \<open>None\<close>.
\<close>

record 'v system =
  ldr :: "'v singleflightLoader"
  waiting :: "nat \<Rightarrow> caller option"
  tasks :: "'v task list"
  returned :: "(nat \<times> 'v \<times> bool \<times> error) list"

datatype 'v event =
    Call nat "nat option" "context" string "'v loadFunc"
  | Run nat
  | Wake nat wakeup

definition initSystem :: "int \<Rightarrow> ('v::zero) system" where
  "initSystem gomaxprocs =
     \<lparr>ldr = newSingleflightLoader gomaxprocs, waiting = Map.empty, tasks = [], returned = []\<rparr>"

fun step :: "(string \<Rightarrow> 64 word) \<Rightarrow> ('v::zero) system \<Rightarrow> 'v event \<Rightarrow> 'v system option" where
  "step hashKey s (Call g pick c key loader) =
     (if waiting s g \<noteq> None then None
      else
        (case load_begin hashKey pick (ldr s) c key loader of
           None \<Rightarrow> None
         | Some (l1, cl, ts) \<Rightarrow>
             Some (s\<lparr>ldr := l1, waiting := (waiting s)(g \<mapsto> cl), tasks := tasks s @ ts\<rparr>)))"
| "step hashKey s (Run i) =
     (if i < length (tasks s)
      then
        (case leaderTask (ldr s) (tasks s ! i) of
           None \<Rightarrow> None
         | Some l1 \<Rightarrow> Some (s\<lparr>ldr := l1, tasks := take i (tasks s) @ drop (Suc i) (tasks s)\<rparr>))
      else None)"
| "step hashKey s (Wake g w) =
     (case waiting s g of
        None \<Rightarrow> None
      | Some cl \<Rightarrow>
          (case load_end (ldr s) cl w of
             None \<Rightarrow> None
           | Some (res, l1) \<Rightarrow>
               Some (s\<lparr>ldr := l1, waiting := (waiting s)(g := None),
                       returned := returned s @ [(g, res)]\<rparr>)))"

fun run :: "(string \<Rightarrow> 64 word) \<Rightarrow> ('v::zero) system \<Rightarrow> 'v event list \<Rightarrow> 'v system option" where
  "run hashKey s [] = Some s"
| "run hashKey s (ev # evs) =
     (case step hashKey s ev of None \<Rightarrow> None | Some s1 \<Rightarrow> run hashKey s1 evs)"

subsection \<open>The specification's clamp\<close>

text \<open>
  \<open>clamp x lo hi\<close> as the specification uses it for the number of shards: \<open>x\<close> brought
  into the range from \<open>lo\<close> to \<open>hi\<close>. It is compared with \<open>shardCount\<close> below.
\<close>

definition clamp :: "int \<Rightarrow> int \<Rightarrow> int \<Rightarrow> int" where
  "clamp x lo hi = (if x < lo then lo else if hi < x then hi else x)"

subsection \<open>Invariants of the loader\<close>

text \<open>
  What holds of the loader and of the system in every state that an execution reaches;
  the proofs below establish it. A record's \<open>done_flag\<close> agrees with its channel being
  closed; a pooled record is done and has no reference left; the pool holds pooled,
  allocated records, each once; for an allocated record the number of times it was put
  into the pool and the number of times \<^verbatim>\<open>newInflight\<close> handed it out differ by one while
  it is out of the pool and agree while it is pooled; the shard maps hold allocated
  records. In the system, the record of a
  pending goroutine is not done, no two pending goroutines share a record, and the
  callers hold allocated records.
\<close>

definition loader_ok :: "'v singleflightLoader \<Rightarrow> bool" where
  "loader_ok l \<longleftrightarrow>
     (\<forall>a. done_flag (heap l a) = doneCh (heap l a))
     \<and> (\<forall>a. pooled (heap l a) \<longrightarrow> done_flag (heap l a) \<and> refs (heap l a) \<le> 0)
     \<and> (\<forall>a \<in> set (inflightPool l). pooled (heap l a) \<and> a < allocated l)
     \<and> distinct (inflightPool l)
     \<and> (\<forall>a < allocated l.
           count_list (poolPuts l) a + (if pooled (heap l a) then 0 else 1)
             = count_list (newInflights l) a)
     \<and> (\<forall>a \<in> set (poolPuts l) \<union> set (newInflights l). a < allocated l)
     \<and> (\<forall>shard < length (shards l). \<forall>key a. (shards l ! shard) key = Some a \<longrightarrow> a < allocated l)"

definition sys_ok :: "'v system \<Rightarrow> bool" where
  "sys_ok s \<longleftrightarrow>
     loader_ok (ldr s)
     \<and> (\<forall>t \<in> set (tasks s). \<not> doneCh (heap (ldr s) (tinfl t)) \<and> tinfl t < allocated (ldr s))
     \<and> distinct (map tinfl (tasks s))
     \<and> (\<forall>g cl. waiting s g = Some cl \<longrightarrow> cinfl cl < allocated (ldr s))"





section \<open>Properties of the codecs\<close>

text \<open>
  C2. With threshold \<open>T\<close> and an inner encoding \<open>p\<close> of length \<open>L\<close>, every frame that
  \<open>Encode\<close> returns is non-empty and starts with \<open>0x00\<close> when \<open>T < 0\<close>, with \<open>0x01\<close> when
  \<open>T = 0\<close>, and for \<open>T > 0\<close> with \<open>0x01\<close> exactly when \<open>L \<ge> T\<close> and with \<open>0x00\<close> exactly
  when \<open>L < T\<close>. \<open>Encode\<close> fails only where it compresses and zlib itself fails.
\<close>

theorem Encode_threshold_tag:
  assumes "codecEncode inr value = (p, None)"
  shows "case Encode zl (NewBinaryCompressionCodec inr T) value of
           (frame, None) \<Rightarrow>
             frame \<noteq> [] \<and>
             (T < 0 \<longrightarrow> hd frame = 0x00) \<and>
             (T = 0 \<longrightarrow> hd frame = 0x01) \<and>
             (T > 0 \<longrightarrow> (hd frame = 0x01 \<longleftrightarrow> int (length p) \<ge> T)
                       \<and> (hd frame = 0x00 \<longleftrightarrow> int (length p) < T))
         | (frame, Some e) \<Rightarrow>
             \<not> (T < 0 \<or> int (length p) < T) \<and> snd (compressZlib zl p) = Some e"
  using assms
  by (auto simp: Encode_def NewBinaryCompressionCodec_def CompressionTypeIDNone_def
      CompressionTypeIDZlib_def split: prod.splits option.splits)

theorem Encode_threshold_tag_witness:
  "codecEncode \<lparr>codecEncode = (\<lambda>v. ([7, 8, 9], None)),
                codecDecode = (\<lambda>d. (zeroCacheObject, None)),
                releasePolicy = None\<rparr> \<lparr>Value = 5::nat, ExpireAtMillis = 1234\<rparr> = ([7, 8, 9], None)
   \<and> Encode \<lparr>compressZlib = (\<lambda>d. (0x78 # d, None)), decompressZlib = (\<lambda>d. (tl d, None))\<rparr>
        (NewBinaryCompressionCodec
           \<lparr>codecEncode = (\<lambda>v. ([7, 8, 9], None)),
            codecDecode = (\<lambda>d. (zeroCacheObject, None)),
            releasePolicy = None\<rparr> 3) \<lparr>Value = 5::nat, ExpireAtMillis = 1234\<rparr>
      = ([0x01, 0x78, 7, 8, 9], None)"
proof -
  let ?inr = "\<lparr>codecEncode = (\<lambda>v::nat CacheObject. ([7, 8, 9] :: byte list, None :: error)),
                codecDecode = (\<lambda>d. (zeroCacheObject, None)),
                releasePolicy = None\<rparr>"
  have h: "codecEncode ?inr \<lparr>Value = 5::nat, ExpireAtMillis = 1234\<rparr> = ([7, 8, 9], None)"
    by simp
  show ?thesis
    using Encode_threshold_tag [OF h,
        where zl = "\<lparr>compressZlib = (\<lambda>d. (0x78 # d, None)), decompressZlib = (\<lambda>d. (tl d, None))\<rparr>"
          and T = 3]
    by (simp add: Encode_def NewBinaryCompressionCodec_def CompressionTypeIDZlib_def)
qed



text \<open>
  C4. On the input \<open>[0xff, 0x00]\<close>, whose first byte is neither type ID, \<open>Decode\<close> fails
  with the error made by \<^verbatim>\<open>fmt.Errorf("unsupported compression type: %d", 255)\<close>, which
  \<^verbatim>\<open>errors.Is\<close> does not match with \<^verbatim>\<open>ErrUnsupportedCompressionTypeID\<close>.
\<close>

theorem Decode_unsupported_type_id:
  "Decode zl (NewBinaryCompressionCodec inr 1) [0xff, 0x00]
     = ((zeroCacheObject, Some (Errorf ''unsupported compression type: 255'')), [])
   \<and> \<not> errorsIs (snd (fst (Decode zl (NewBinaryCompressionCodec inr 1) [0xff, 0x00])))
          ErrUnsupportedCompressionTypeID"
  by (simp add: Decode_def CompressionTypeIDNone_def CompressionTypeIDZlib_def errorsIs_def
      decimal.simps digit_def)

text \<open>
  C9. On the empty input \<open>Decode\<close> returns the zero cache object with
  \<^verbatim>\<open>ErrDecompressZeroLengthData\<close> and does not call the inner decoder.
\<close>

theorem Decode_empty_input:
  "Decode zl b [] = ((zeroCacheObject, Some ErrDecompressZeroLengthData), [])
   \<and> errorsIs (snd (fst (Decode zl b []))) ErrDecompressZeroLengthData"
  by (simp add: Decode_def errorsIs_def)

section \<open>Properties of the loader\<close>

subsection \<open>Shards\<close>

lemma shardCount_clamp: "shardCount g = clamp (g * 2) 8 32"
  by (simp add: shardCount_def clamp_def minShardCount_def maxShardCount_def shardMultiplier_def)

lemma clamp_range: "8 \<le> clamp x 8 32 \<and> clamp x 8 32 \<le> 32"
  by (simp add: clamp_def)

lemma unat_of_nat64: "n \<le> 32 \<Longrightarrow> unat (of_nat n :: 64 word) = n"
  by (simp add: unat_of_nat)

lemma poolGet_shards: "poolGet pick l = (a, l1) \<Longrightarrow> shards l1 = shards l"
  by (auto simp: poolGet_def split: option.splits if_splits)

lemma newInflight_shards: "newInflight pick l c = (a, l1) \<Longrightarrow> shards l1 = shards l"
  by (auto simp: newInflight_def Let_def split: prod.splits dest: poolGet_shards)

lemma acquireInflight_length_shards:
  "acquireInflight hk pick l c key = Some (l1, a, ld, sh) \<Longrightarrow> length (shards l1) = length (shards l)"
  by (auto simp: acquireInflight_def Let_def split: option.splits if_splits prod.splits
      dest: newInflight_shards)

lemma finishInflight_shards: "finishInflight l a sh v e = Some l1 \<Longrightarrow> shards l1 = shards l"
  by (auto simp: finishInflight_def Let_def split: if_splits)

lemma releaseInflight_length_shards: "length (shards (releaseInflight l key a sh)) = length (shards l)"
  by (simp add: releaseInflight_def Let_def)

lemma step_length_shards:
  "step hk s ev = Some s1 \<Longrightarrow> length (shards (ldr s1)) = length (shards (ldr s))"
proof (cases ev)
  case (Call g pick c key loader)
  assume "step hk s ev = Some s1"
  with Call show ?thesis
    by (auto simp: load_begin_def split: if_splits option.splits prod.splits
        dest: acquireInflight_length_shards)
next
  case (Run i)
  assume "step hk s ev = Some s1"
  with Run show ?thesis
    by (auto simp: leaderTask_def Let_def split: if_splits option.splits prod.splits
        dest: finishInflight_shards)
next
  case (Wake g w)
  assume "step hk s ev = Some s1"
  with Wake show ?thesis
    by (auto simp: load_end_def Let_def releaseInflight_length_shards
        split: if_splits option.splits prod.splits wakeup.splits)
qed

lemma run_length_shards:
  "run hk s evs = Some s1 \<Longrightarrow> length (shards (ldr s1)) = length (shards (ldr s))"
  by (induction evs arbitrary: s) (auto split: option.splits dest: step_length_shards)

lemma shardFor_less:
  assumes "shardFor hk l key = Some shard"
  shows "shard < length (shards l)"
proof -
  let ?n = "length (shards l)"
  let ?w = "of_nat ?n :: 64 word"
  from assms have n: "?n \<noteq> 0" and sh: "shard = unat (hk key mod ?w)"
    by (auto simp: shardFor_def split: if_splits)
  show ?thesis
  proof (cases "?w = 0")
    case True
    then have "2 ^ 64 dvd ?n"
      by (simp add: word_of_nat_eq_0_iff)
    then have "2 ^ 64 \<le> ?n" using n by (simp add: dvd_imp_le)
    moreover have "unat (hk key mod ?w) < 2 ^ 64"
      using unsigned_less [of "hk key mod ?w"] by simp
    ultimately show ?thesis using sh by simp
  next
    case False
    then have "unat (hk key mod ?w) < unat ?w"
      by (simp add: unat_mod unat_gt_0)
    moreover have "unat ?w \<le> ?n"
      by (simp add: unat_of_nat)
    ultimately show ?thesis using sh by simp
  qed
qed

text \<open>
  C8. In every state that an execution reaches from the initial system, the number of
  shards is \<open>clamp (GOMAXPROCS * 2) 8 32\<close>, and \<open>shardFor\<close> selects for a key the shard
  whose index is the key's hash modulo that number, an index inside the array. As
  \<open>shardFor\<close> is a function of the hash, the shards and the key, the same key always
  gives the same shard.
\<close>

theorem shard_selection:
  assumes "run hashKey (initSystem gomaxprocs) evs = Some s"
  shows "length (shards (ldr s)) = nat (clamp (gomaxprocs * 2) 8 32)
       \<and> shardFor hashKey (ldr s) key
           = Some (unat (hashKey key) mod nat (clamp (gomaxprocs * 2) 8 32))
       \<and> unat (hashKey key) mod nat (clamp (gomaxprocs * 2) 8 32) < length (shards (ldr s))"
proof -
  let ?n = "nat (clamp (gomaxprocs * 2) 8 32)"
  have len: "length (shards (ldr s)) = ?n"
    using run_length_shards [OF assms]
    by (simp add: initSystem_def newSingleflightLoader_def shardCount_clamp)
  have n: "8 \<le> ?n" "?n \<le> 32"
    using clamp_range [of "gomaxprocs * 2"] by auto
  have "unat (of_nat ?n :: 64 word) = ?n"
    using n by (intro unat_of_nat64)
  then have "unat (hashKey key mod of_nat ?n) = unat (hashKey key) mod ?n"
    by (simp add: unat_mod)
  then show ?thesis
    using len n by (simp add: shardFor_def)
qed

theorem shard_selection_witness:
  "run (\<lambda>k. of_nat (length k)) (initSystem 4 :: nat system) [] = Some (initSystem 4)
   \<and> length (shards (ldr (initSystem 4 :: nat system))) = 8
   \<and> shardFor (\<lambda>k. of_nat (length k)) (ldr (initSystem 4 :: nat system)) ''key'' = Some 3"
  using shard_selection [where hashKey = "\<lambda>k. of_nat (length k)" and gomaxprocs = 4
      and evs = "[]" and s = "initSystem 4 :: nat system" and key = "''key''"]
  by (simp add: clamp_def)

subsection \<open>The load context\<close>



subsection \<open>Leaders and followers\<close>

lemma newInflight_fields:
  "newInflight pick l c = (a, l1) \<Longrightarrow>
     refs (heap l1 a) = 1 \<and> \<not> done_flag (heap l1 a) \<and> \<not> doneCh (heap l1 a) \<and> \<not> pooled (heap l1 a)
     \<and> val (heap l1 a) = 0 \<and> err (heap l1 a) = None \<and> shards l1 = shards l"
  by (auto simp: newInflight_def poolGet_def Let_def split: prod.splits option.splits if_splits)


lemmas eval_defs = load_begin_def acquireInflight_def shardFor_def newSingleflightLoader_def
  shardCount_def minShardCount_def maxShardCount_def shardMultiplier_def newInflight_def
  poolGet_def Let_def zeroInflight_def initSystem_def leaderTask_def finishInflight_def
  load_end_def releaseInflight_def



subsection \<open>The invariants hold in every reachable state\<close>

lemma count_list_0: "a \<notin> set xs \<Longrightarrow> count_list xs a = 0"
  by (induction xs) auto

lemma distinct_take_drop: "distinct xs \<Longrightarrow> distinct (take i xs @ drop (Suc i) xs)"
  by (simp add: set_take_disj_set_drop_if_distinct)

lemma set_take_drop: "x \<in> set (take i xs @ drop (Suc i) xs) \<Longrightarrow> x \<in> set xs"
  by (auto dest: in_set_takeD in_set_dropD)

lemma nth_notin_take_drop:
  assumes "distinct xs" "i < length xs"
  shows "xs ! i \<notin> set (take i xs @ drop (Suc i) xs)"
proof -
  have "xs = take i xs @ xs ! i # drop (Suc i) xs"
    using assms(2) by (rule id_take_nth_drop)
  then have "distinct (take i xs @ xs ! i # drop (Suc i) xs)"
    using assms(1) by simp
  then show ?thesis by auto
qed

lemma newInflight_cases:
  assumes "newInflight pick l c = (a, l1)"
  shows "(\<exists>i. i < length (inflightPool l) \<and> a = inflightPool l ! i
            \<and> inflightPool l1 = take i (inflightPool l) @ drop (Suc i) (inflightPool l)
            \<and> allocated l1 = allocated l)
         \<or> (a = allocated l \<and> inflightPool l1 = inflightPool l \<and> allocated l1 = Suc (allocated l))"
  using assms
  by (auto simp: newInflight_def poolGet_def Let_def split: prod.splits option.splits if_splits)

lemma newInflight_frame:
  assumes "newInflight pick l c = (a, l1)"
  shows "(\<forall>b. b \<noteq> a \<longrightarrow> heap l1 b = heap l b)
       \<and> poolPuts l1 = poolPuts l \<and> newInflights l1 = newInflights l @ [a]
       \<and> metrics l1 = metrics l \<and> cancelled l1 = cancelled l"
  using assms
  by (auto simp: newInflight_def poolGet_def Let_def split: prod.splits option.splits if_splits)

lemma newInflight_ok:
  assumes ok: "loader_ok l" and n: "newInflight pick l c = (a, l1)"
  shows "loader_ok l1"
    and "a < allocated l1"
    and "allocated l \<le> allocated l1"
    and "a = allocated l \<or> (a < allocated l \<and> doneCh (heap l a))"
proof -
  note fr = newInflight_frame [OF n]
  note fl = newInflight_fields [OF n]
  from fr have same: "\<And>b. b \<noteq> a \<Longrightarrow> heap l1 b = heap l b" by simp
  from fr have puts: "poolPuts l1 = poolPuts l" and news: "newInflights l1 = newInflights l @ [a]"
    by simp_all
  from ok have
    i1: "\<And>b. done_flag (heap l b) = doneCh (heap l b)" and
    i2: "\<And>b. pooled (heap l b) \<Longrightarrow> done_flag (heap l b) \<and> refs (heap l b) \<le> 0" and
    i3: "\<And>b. b \<in> set (inflightPool l) \<Longrightarrow> pooled (heap l b) \<and> b < allocated l" and
    i4: "distinct (inflightPool l)" and
    i5: "\<And>b. b < allocated l \<Longrightarrow>
           count_list (poolPuts l) b + (if pooled (heap l b) then 0 else 1)
             = count_list (newInflights l) b" and
    i6: "\<And>b. b \<in> set (poolPuts l) \<union> set (newInflights l) \<Longrightarrow> b < allocated l" and
    i7: "\<And>sh k b. sh < length (shards l) \<Longrightarrow> (shards l ! sh) k = Some b \<Longrightarrow> b < allocated l"
    unfolding loader_ok_def by blast+
  have c7: "\<forall>sh < length (shards l1). \<forall>k b. (shards l1 ! sh) k = Some b \<longrightarrow> b < allocated l1"
    using i7 fl newInflight_cases [OF n] by (metis less_Suc_eq)
  from newInflight_cases [OF n]
  consider
    (pool) i where "i < length (inflightPool l)" "a = inflightPool l ! i"
      "inflightPool l1 = take i (inflightPool l) @ drop (Suc i) (inflightPool l)"
      "allocated l1 = allocated l"
  | (fresh) "a = allocated l" "inflightPool l1 = inflightPool l" "allocated l1 = Suc (allocated l)"
    by blast
  then have main: "loader_ok l1 \<and> a < allocated l1 \<and> allocated l \<le> allocated l1
      \<and> (a = allocated l \<or> (a < allocated l \<and> doneCh (heap l a)))"
  proof cases
    case pool
    have ain: "a \<in> set (inflightPool l)" using pool(1,2) by simp
    have ap: "pooled (heap l a)" "a < allocated l" using i3 [OF ain] by simp_all
    have anot: "a \<notin> set (inflightPool l1)"
      using nth_notin_take_drop [OF i4 pool(1)] pool(2,3) by simp
    have sub: "\<And>b. b \<in> set (inflightPool l1) \<Longrightarrow> b \<in> set (inflightPool l)"
      using pool(3) set_take_drop by metis
    have c1: "\<forall>b. done_flag (heap l1 b) = doneCh (heap l1 b)"
      using same i1 fl by metis
    have c2: "\<forall>b. pooled (heap l1 b) \<longrightarrow> done_flag (heap l1 b) \<and> refs (heap l1 b) \<le> 0"
      using same i2 fl by metis
    have c3: "\<forall>b \<in> set (inflightPool l1). pooled (heap l1 b) \<and> b < allocated l1"
    proof
      fix b assume b: "b \<in> set (inflightPool l1)"
      then have "b \<noteq> a" using anot by auto
      then show "pooled (heap l1 b) \<and> b < allocated l1"
        using same i3 [OF sub [OF b]] pool(4) by simp
    qed
    have c4: "distinct (inflightPool l1)"
      using pool(3) distinct_take_drop [OF i4] by simp
    have c5: "\<forall>b < allocated l1.
           count_list (poolPuts l1) b + (if pooled (heap l1 b) then 0 else 1)
             = count_list (newInflights l1) b"
    proof (intro allI impI)
      fix b assume b: "b < allocated l1"
      show "count_list (poolPuts l1) b + (if pooled (heap l1 b) then 0 else 1)
             = count_list (newInflights l1) b"
      proof (cases "b = a")
        case True
        then show ?thesis using i5 [OF ap(2)] ap(1) fl puts news by simp
      next
        case False
        then show ?thesis using i5 [of b] b pool(4) same puts news by simp
      qed
    qed
    have c6: "\<forall>b \<in> set (poolPuts l1) \<union> set (newInflights l1). b < allocated l1"
      using i6 ap(2) pool(4) puts news by auto
    have "doneCh (heap l a)" using i1 i2 ap(1) by blast
    then show ?thesis
      unfolding loader_ok_def using c1 c2 c3 c4 c5 c6 c7 ap(2) pool(4) by simp
  next
    case fresh
    have notin: "a \<notin> set (poolPuts l) \<union> set (newInflights l)"
      using i6 fresh(1) by blast
    have c1: "\<forall>b. done_flag (heap l1 b) = doneCh (heap l1 b)"
      using same i1 fl by metis
    have c2: "\<forall>b. pooled (heap l1 b) \<longrightarrow> done_flag (heap l1 b) \<and> refs (heap l1 b) \<le> 0"
      using same i2 fl by metis
    have c3: "\<forall>b \<in> set (inflightPool l1). pooled (heap l1 b) \<and> b < allocated l1"
    proof
      fix b assume b: "b \<in> set (inflightPool l1)"
      then have bl: "b \<in> set (inflightPool l)" using fresh(2) by simp
      then have "b \<noteq> a" using i3 [OF bl] fresh(1) by auto
      then show "pooled (heap l1 b) \<and> b < allocated l1"
        using same i3 [OF bl] fresh(3) by simp
    qed
    have c4: "distinct (inflightPool l1)"
      using fresh(2) i4 by simp
    have c5: "\<forall>b < allocated l1.
           count_list (poolPuts l1) b + (if pooled (heap l1 b) then 0 else 1)
             = count_list (newInflights l1) b"
    proof (intro allI impI)
      fix b assume b: "b < allocated l1"
      show "count_list (poolPuts l1) b + (if pooled (heap l1 b) then 0 else 1)
             = count_list (newInflights l1) b"
      proof (cases "b = a")
        case True
        then show ?thesis using notin fl puts news by (simp add: count_list_0)
      next
        case False
        then have "b < allocated l" using b fresh(1,3) by simp
        then show ?thesis using i5 [of b] False same puts news by simp
      qed
    qed
    have c6: "\<forall>b \<in> set (poolPuts l1) \<union> set (newInflights l1). b < allocated l1"
      using i6 fresh(1,3) puts news by (auto simp: less_Suc_eq)
    show ?thesis
      unfolding loader_ok_def using c1 c2 c3 c4 c5 c6 c7 fresh(1,3) by simp
  qed
  from main show "loader_ok l1" "a < allocated l1" "allocated l \<le> allocated l1"
    "a = allocated l \<or> (a < allocated l \<and> doneCh (heap l a))"
    by simp_all
qed

lemma finishInflight_effect:
  assumes "finishInflight l a sh v e = Some l1"
  shows "\<not> doneCh (heap l a)"
    and "shards l1 = shards l" and "allocated l1 = allocated l"
    and "newInflights l1 = newInflights l" and "cancelled l1 = cancelled l"
    and "\<And>b. b \<noteq> a \<Longrightarrow> heap l1 b = heap l b"
    and "heap l1 a = (heap l a)\<lparr>val := v, err := e, done_flag := True, doneCh := True,
                                 pooled := (refs (heap l a) \<le> 0 \<or> pooled (heap l a))\<rparr>"
    and "inflightPool l1 = inflightPool l @ (if refs (heap l a) \<le> 0 \<and> \<not> pooled (heap l a) then [a] else [])"
    and "poolPuts l1 = poolPuts l @ (if refs (heap l a) \<le> 0 \<and> \<not> pooled (heap l a) then [a] else [])"
    and "metrics l1 = metrics l @ [RecordLoadConcurrency (ctx (heap l a)) (refs (heap l a))]"
  using assms
  by (auto simp: finishInflight_def Let_def split: if_splits)


lemma list_update_map_del:
  "s < length xs \<Longrightarrow> ((xs[i := (xs ! i)(k := None)]) ! s) k' = Some b \<Longrightarrow> (xs ! s) k' = Some b"
  by (cases "s = i") (auto simp: nth_list_update split: if_splits)

lemma releaseInflight_effect:
  fixes l key a sh
  defines "l1 \<equiv> releaseInflight l key a sh"
  defines "put \<equiv> refs (heap l a) - 1 \<le> 0 \<and> done_flag (heap l a) \<and> \<not> pooled (heap l a)"
  shows "allocated l1 = allocated l"
    and "newInflights l1 = newInflights l" and "metrics l1 = metrics l"
    and "\<And>b. b \<noteq> a \<Longrightarrow> heap l1 b = heap l b"
    and "heap l1 a = (heap l a)\<lparr>refs := refs (heap l a) - 1, pooled := (put \<or> pooled (heap l a))\<rparr>"
    and "inflightPool l1 = inflightPool l @ (if put then [a] else [])"
    and "poolPuts l1 = poolPuts l @ (if put then [a] else [])"
    and "length (shards l1) = length (shards l)"
    and "\<And>s k b. s < length (shards l) \<Longrightarrow> (shards l1 ! s) k = Some b \<Longrightarrow> (shards l ! s) k = Some b"
  unfolding l1_def put_def
  by (auto simp: releaseInflight_def Let_def split: if_splits dest: list_update_map_del)

lemma loader_okD:
  assumes "loader_ok l"
  shows "\<And>b. done_flag (heap l b) = doneCh (heap l b)"
    and "\<And>b. pooled (heap l b) \<Longrightarrow> done_flag (heap l b) \<and> refs (heap l b) \<le> 0"
    and "\<And>b. b \<in> set (inflightPool l) \<Longrightarrow> pooled (heap l b) \<and> b < allocated l"
    and "distinct (inflightPool l)"
    and "\<And>b. b < allocated l \<Longrightarrow>
           count_list (poolPuts l) b + (if pooled (heap l b) then 0 else 1)
             = count_list (newInflights l) b"
    and "\<And>b. b \<in> set (poolPuts l) \<union> set (newInflights l) \<Longrightarrow> b < allocated l"
    and "\<And>sh k b. sh < length (shards l) \<Longrightarrow> (shards l ! sh) k = Some b \<Longrightarrow> b < allocated l"
  using assms unfolding loader_ok_def by blast+

lemma finishInflight_ok:
  assumes ok: "loader_ok l" and al: "a < allocated l"
    and f: "finishInflight l a sh v e = Some l1"
  shows "loader_ok l1"
proof -
  note i = loader_okD [OF ok]
  note ef = finishInflight_effect [OF f]
  have np: "\<not> pooled (heap l a)" using i(1) i(2) ef(1) by blast
  have anot: "a \<notin> set (inflightPool l)" using i(3) np by blast
  have c1: "\<forall>b. done_flag (heap l1 b) = doneCh (heap l1 b)"
  proof
    fix b show "done_flag (heap l1 b) = doneCh (heap l1 b)"
      by (cases "b = a") (simp_all add: ef(6,7) i(1))
  qed
  have c2: "\<forall>b. pooled (heap l1 b) \<longrightarrow> done_flag (heap l1 b) \<and> refs (heap l1 b) \<le> 0"
  proof
    fix b show "pooled (heap l1 b) \<longrightarrow> done_flag (heap l1 b) \<and> refs (heap l1 b) \<le> 0"
      using np i(2) [of b] by (cases "b = a") (simp_all add: ef(6,7))
  qed
  have c3: "\<forall>b \<in> set (inflightPool l1). pooled (heap l1 b) \<and> b < allocated l1"
  proof
    fix b assume "b \<in> set (inflightPool l1)"
    then show "pooled (heap l1 b) \<and> b < allocated l1"
      using i(3) [of b] al np by (cases "b = a") (auto simp: ef(3,6,7,8) split: if_splits)
  qed
  have c4: "distinct (inflightPool l1)"
    using i(4) anot by (auto simp: ef(8))
  have c5: "\<forall>b < allocated l1.
           count_list (poolPuts l1) b + (if pooled (heap l1 b) then 0 else 1)
             = count_list (newInflights l1) b"
  proof (intro allI impI)
    fix b assume "b < allocated l1"
    then have b: "b < allocated l" by (simp add: ef(3))
    show "count_list (poolPuts l1) b + (if pooled (heap l1 b) then 0 else 1)
             = count_list (newInflights l1) b"
      using i(5) [OF b] np by (cases "b = a") (simp_all add: ef(4,6,7,9))
  qed
  have c6: "\<forall>b \<in> set (poolPuts l1) \<union> set (newInflights l1). b < allocated l1"
    using i(6) al by (auto simp: ef(3,4,9) split: if_splits)
  have c7: "\<forall>sh < length (shards l1). \<forall>k b. (shards l1 ! sh) k = Some b \<longrightarrow> b < allocated l1"
    using i(7) by (simp add: ef(2,3))
  show ?thesis
    unfolding loader_ok_def using c1 c2 c3 c4 c5 c6 c7 by simp
qed

lemma releaseInflight_ok:
  assumes ok: "loader_ok l" and al: "a < allocated l"
  shows "loader_ok (releaseInflight l key a sh)"
proof -
  let ?l1 = "releaseInflight l key a sh"
  let ?put = "refs (heap l a) - 1 \<le> 0 \<and> done_flag (heap l a) \<and> \<not> pooled (heap l a)"
  note i = loader_okD [OF ok]
  note ef = releaseInflight_effect [where l = l and key = key and a = a and sh = sh]
  have c1: "\<forall>b. done_flag (heap ?l1 b) = doneCh (heap ?l1 b)"
  proof
    fix b show "done_flag (heap ?l1 b) = doneCh (heap ?l1 b)"
      by (cases "b = a") (simp_all add: ef(4,5) i(1))
  qed
  have c2: "\<forall>b. pooled (heap ?l1 b) \<longrightarrow> done_flag (heap ?l1 b) \<and> refs (heap ?l1 b) \<le> 0"
  proof
    fix b show "pooled (heap ?l1 b) \<longrightarrow> done_flag (heap ?l1 b) \<and> refs (heap ?l1 b) \<le> 0"
      using i(2) [of b] by (cases "b = a") (auto simp: ef(4,5))
  qed
  have anot: "?put \<Longrightarrow> a \<notin> set (inflightPool l)" using i(3) by blast
  have c3: "\<forall>b \<in> set (inflightPool ?l1). pooled (heap ?l1 b) \<and> b < allocated ?l1"
  proof
    fix b assume "b \<in> set (inflightPool ?l1)"
    then show "pooled (heap ?l1 b) \<and> b < allocated ?l1"
      using i(3) [of b] al by (cases "b = a") (auto simp: ef(1,4,5,6) split: if_splits)
  qed
  have c4: "distinct (inflightPool ?l1)"
    using i(4) anot by (auto simp: ef(6))
  have c5: "\<forall>b < allocated ?l1.
           count_list (poolPuts ?l1) b + (if pooled (heap ?l1 b) then 0 else 1)
             = count_list (newInflights ?l1) b"
  proof (intro allI impI)
    fix b assume "b < allocated ?l1"
    then have b: "b < allocated l" by (simp add: ef(1))
    show "count_list (poolPuts ?l1) b + (if pooled (heap ?l1 b) then 0 else 1)
             = count_list (newInflights ?l1) b"
      using i(5) [OF b] by (cases "b = a") (auto simp: ef(2,4,5,7))
  qed
  have c6: "\<forall>b \<in> set (poolPuts ?l1) \<union> set (newInflights ?l1). b < allocated ?l1"
    using i(6) al by (auto simp: ef(1,2,7) split: if_splits)
  have c7: "\<forall>sh < length (shards ?l1). \<forall>k b. (shards ?l1 ! sh) k = Some b \<longrightarrow> b < allocated ?l1"
    using i(7) ef(9) unfolding ef(1,8) by blast
  show ?thesis
    unfolding loader_ok_def using c1 c2 c3 c4 c5 c6 c7 by simp
qed

lemma loader_okI:
  assumes "\<And>b. done_flag (heap l b) = doneCh (heap l b)"
    and "\<And>b. pooled (heap l b) \<Longrightarrow> done_flag (heap l b) \<and> refs (heap l b) \<le> 0"
    and "\<And>b. b \<in> set (inflightPool l) \<Longrightarrow> pooled (heap l b) \<and> b < allocated l"
    and "distinct (inflightPool l)"
    and "\<And>b. b < allocated l \<Longrightarrow>
           count_list (poolPuts l) b + (if pooled (heap l b) then 0 else 1)
             = count_list (newInflights l) b"
    and "\<And>b. b \<in> set (poolPuts l) \<union> set (newInflights l) \<Longrightarrow> b < allocated l"
    and "\<And>sh k b. sh < length (shards l) \<Longrightarrow> (shards l ! sh) k = Some b \<Longrightarrow> b < allocated l"
  shows "loader_ok l"
  unfolding loader_ok_def using assms by blast

lemma loader_ok_shards_update:
  assumes ok: "loader_ok l" and a: "a < allocated l"
  shows "loader_ok (l\<lparr>shards := (shards l)[sh := (shards l ! sh)(key \<mapsto> a)]\<rparr>)"
proof -
  note i = loader_okD [OF ok]
  have "\<forall>s < length (shards l). \<forall>k b.
          ((shards l)[sh := (shards l ! sh)(key \<mapsto> a)] ! s) k = Some b \<longrightarrow> b < allocated l"
  proof (intro allI impI)
    fix s k b
    assume s: "s < length (shards l)"
      and e: "((shards l)[sh := (shards l ! sh)(key \<mapsto> a)] ! s) k = Some b"
    show "b < allocated l"
    proof (cases "s = sh \<and> k = key")
      case True
      then show ?thesis using s e a by simp
    next
      case False
      then have "(shards l ! s) k = Some b"
        using s e by (cases "s = sh") (auto split: if_splits)
      then show ?thesis using i(7) [OF s] by simp
    qed
  qed
  then have sh7: "\<And>s k b. s < length (shards l) \<Longrightarrow>
          ((shards l)[sh := (shards l ! sh)(key \<mapsto> a)] ! s) k = Some b \<Longrightarrow> b < allocated l"
    by blast
  show ?thesis
  proof (rule loader_okI)
    fix s k b
    assume "s < length (shards (l\<lparr>shards := (shards l)[sh := (shards l ! sh)(key \<mapsto> a)]\<rparr>))"
      and "(shards (l\<lparr>shards := (shards l)[sh := (shards l ! sh)(key \<mapsto> a)]\<rparr>) ! s) k = Some b"
    then show "b < allocated (l\<lparr>shards := (shards l)[sh := (shards l ! sh)(key \<mapsto> a)]\<rparr>)"
      using sh7 [of s k b] by simp
  qed (use i in simp_all)
qed

lemma loader_ok_metrics_update [simp]: "loader_ok (l\<lparr>metrics := m\<rparr>) = loader_ok l"
  by (simp add: loader_ok_def)

lemma acquireInflight_ok:
  assumes ok: "loader_ok l"
    and ac: "acquireInflight hk pick l c key = Some (l1, a, leader, sh)"
  shows "loader_ok l1"
    and "allocated l \<le> allocated l1"
    and "a < allocated l1"
    and "leader \<Longrightarrow> \<not> doneCh (heap l1 a)
           \<and> (a = allocated l \<or> (a < allocated l \<and> doneCh (heap l a)))
           \<and> (\<forall>b. b \<noteq> a \<longrightarrow> heap l1 b = heap l b)"
    and "\<not> leader \<Longrightarrow> \<forall>b. doneCh (heap l1 b) = doneCh (heap l b)"
    and "poolPuts l1 = poolPuts l" and "metrics l1 = metrics l"
proof -
  note i = loader_okD [OF ok]
  from ac have sf: "shardFor hk l key = Some sh"
    by (auto simp: acquireInflight_def Let_def split: option.splits if_splits prod.splits)
  have len: "sh < length (shards l)" using sf by (rule shardFor_less)
  obtain a0 l0 where n: "newInflight pick l c = (a0, l0)"
    by (cases "newInflight pick l c")
  note nok = newInflight_ok [OF ok n]
  note nfr = newInflight_frame [OF n]
  note nfl = newInflight_fields [OF n]
  let ?lead = "l0\<lparr>shards := (shards l0)[sh := (shards l0 ! sh)(key \<mapsto> a0)]\<rparr>"
  have leadok: "loader_ok ?lead"
    using loader_ok_shards_update [OF nok(1) nok(2)] .
  have main: "loader_ok l1 \<and> allocated l \<le> allocated l1 \<and> a < allocated l1
      \<and> (leader \<longrightarrow> \<not> doneCh (heap l1 a)
           \<and> (a = allocated l \<or> (a < allocated l \<and> doneCh (heap l a)))
           \<and> (\<forall>b. b \<noteq> a \<longrightarrow> heap l1 b = heap l b))
      \<and> (\<not> leader \<longrightarrow> (\<forall>b. doneCh (heap l1 b) = doneCh (heap l b)))
      \<and> poolPuts l1 = poolPuts l \<and> metrics l1 = metrics l"
  proof (cases "(shards l ! sh) key")
    case None
    then have "l1 = ?lead" "a = a0" "leader"
      using ac sf n by (auto simp: acquireInflight_def)
    then show ?thesis
      using leadok nok nfr nfl by simp
  next
    case (Some b)
    show ?thesis
    proof (cases "doneCh (heap l b)")
      case True
      then have "l1 = ?lead" "a = a0" "leader"
        using ac sf n Some by (auto simp: acquireInflight_def)
      then show ?thesis
        using leadok nok nfr nfl by simp
    next
      case False
      then have e: "l1 = l\<lparr>heap := (heap l)(b := (heap l b)\<lparr>refs := refs (heap l b) + 1\<rparr>)\<rparr>"
          "a = b" "\<not> leader"
        using ac sf Some by (auto simp: acquireInflight_def)
      have bl: "b < allocated l" using i(7) [OF len Some] .
      have np: "\<not> pooled (heap l b)" using False i(1) i(2) by blast
      have "loader_ok l1"
        unfolding e(1)
      proof (rule loader_okI)
        fix x
        show "done_flag (heap (l\<lparr>heap := (heap l)(b := (heap l b)\<lparr>refs := refs (heap l b) + 1\<rparr>)\<rparr>) x)
              = doneCh (heap (l\<lparr>heap := (heap l)(b := (heap l b)\<lparr>refs := refs (heap l b) + 1\<rparr>)\<rparr>) x)"
          using i(1) by simp
      next
        fix x
        assume "pooled (heap (l\<lparr>heap := (heap l)(b := (heap l b)\<lparr>refs := refs (heap l b) + 1\<rparr>)\<rparr>) x)"
        then show "done_flag (heap (l\<lparr>heap := (heap l)(b := (heap l b)\<lparr>refs := refs (heap l b) + 1\<rparr>)\<rparr>) x)
              \<and> refs (heap (l\<lparr>heap := (heap l)(b := (heap l b)\<lparr>refs := refs (heap l b) + 1\<rparr>)\<rparr>) x) \<le> 0"
          using i(2) [of x] np by (cases "x = b") simp_all
      next
        fix x
        assume "x \<in> set (inflightPool (l\<lparr>heap := (heap l)(b := (heap l b)\<lparr>refs := refs (heap l b) + 1\<rparr>)\<rparr>))"
        then show "pooled (heap (l\<lparr>heap := (heap l)(b := (heap l b)\<lparr>refs := refs (heap l b) + 1\<rparr>)\<rparr>) x)
              \<and> x < allocated (l\<lparr>heap := (heap l)(b := (heap l b)\<lparr>refs := refs (heap l b) + 1\<rparr>)\<rparr>)"
          using i(3) [of x] by (cases "x = b") simp_all
      next
        fix x
        assume "x < allocated (l\<lparr>heap := (heap l)(b := (heap l b)\<lparr>refs := refs (heap l b) + 1\<rparr>)\<rparr>)"
        then show "count_list (poolPuts (l\<lparr>heap := (heap l)(b := (heap l b)\<lparr>refs := refs (heap l b) + 1\<rparr>)\<rparr>)) x
              + (if pooled (heap (l\<lparr>heap := (heap l)(b := (heap l b)\<lparr>refs := refs (heap l b) + 1\<rparr>)\<rparr>) x) then 0 else 1)
              = count_list (newInflights (l\<lparr>heap := (heap l)(b := (heap l b)\<lparr>refs := refs (heap l b) + 1\<rparr>)\<rparr>)) x"
          using i(5) [of x] by (cases "x = b") simp_all
      next
        fix s k x
        assume "s < length (shards (l\<lparr>heap := (heap l)(b := (heap l b)\<lparr>refs := refs (heap l b) + 1\<rparr>)\<rparr>))"
          and "(shards (l\<lparr>heap := (heap l)(b := (heap l b)\<lparr>refs := refs (heap l b) + 1\<rparr>)\<rparr>) ! s) k = Some x"
        then show "x < allocated (l\<lparr>heap := (heap l)(b := (heap l b)\<lparr>refs := refs (heap l b) + 1\<rparr>)\<rparr>)"
          using i(7) [of s k x] by simp
      qed (use i(4) i(6) in simp_all)
      then show ?thesis
        using e bl by simp
    qed
  qed
  from main show "loader_ok l1" "allocated l \<le> allocated l1" "a < allocated l1"
    "leader \<Longrightarrow> \<not> doneCh (heap l1 a)
           \<and> (a = allocated l \<or> (a < allocated l \<and> doneCh (heap l a)))
           \<and> (\<forall>b. b \<noteq> a \<longrightarrow> heap l1 b = heap l b)"
    "\<not> leader \<Longrightarrow> \<forall>b. doneCh (heap l1 b) = doneCh (heap l b)"
    "poolPuts l1 = poolPuts l" "metrics l1 = metrics l"
    by simp_all
qed

lemma sys_okD:
  assumes "sys_ok s"
  shows "loader_ok (ldr s)"
    and "\<And>t. t \<in> set (tasks s) \<Longrightarrow> \<not> doneCh (heap (ldr s) (tinfl t)) \<and> tinfl t < allocated (ldr s)"
    and "distinct (map tinfl (tasks s))"
    and "\<And>g cl. waiting s g = Some cl \<Longrightarrow> cinfl cl < allocated (ldr s)"
  using assms unfolding sys_ok_def by blast+

lemma sys_okI:
  assumes "loader_ok (ldr s)"
    and "\<And>t. t \<in> set (tasks s) \<Longrightarrow> \<not> doneCh (heap (ldr s) (tinfl t)) \<and> tinfl t < allocated (ldr s)"
    and "distinct (map tinfl (tasks s))"
    and "\<And>g cl. waiting s g = Some cl \<Longrightarrow> cinfl cl < allocated (ldr s)"
  shows "sys_ok s"
  unfolding sys_ok_def using assms by blast

lemma initSystem_ok: "sys_ok (initSystem g)"
  by (simp add: sys_ok_def loader_ok_def initSystem_def newSingleflightLoader_def zeroInflight_def)

lemma step_Call_ok:
  assumes ok: "sys_ok s" and st: "step hk s (Call g pick c key loader) = Some s1"
  shows "sys_ok s1"
proof -
  note i = sys_okD [OF ok]
  from st obtain l1 a leader sh where
    ac: "acquireInflight hk pick (ldr s) c key = Some (l1, a, leader, sh)"
    and s1: "s1 = s\<lparr>ldr := l1,
               waiting := (waiting s)(g \<mapsto> \<lparr>ckey = key, cinfl = a, cleader = leader, cshard = sh\<rparr>),
               tasks := tasks s @ (if leader then [\<lparr>tctx = c, tinfl = a, tshard = sh, tloader = loader\<rparr>] else [])\<rparr>"
    by (auto simp: load_begin_def split: if_splits option.splits prod.splits)
  note a = acquireInflight_ok [OF i(1) ac]
  have old: "\<And>t. t \<in> set (tasks s) \<Longrightarrow>
      \<not> doneCh (heap l1 (tinfl t)) \<and> tinfl t < allocated l1 \<and> (leader \<longrightarrow> tinfl t \<noteq> a)"
  proof -
    fix t assume t: "t \<in> set (tasks s)"
    show "\<not> doneCh (heap l1 (tinfl t)) \<and> tinfl t < allocated l1 \<and> (leader \<longrightarrow> tinfl t \<noteq> a)"
    proof (cases leader)
      case True
      from a(4) [OF True] i(2) [OF t] have ne: "tinfl t \<noteq> a" by auto
      then show ?thesis using a(4) [OF True] i(2) [OF t] a(2) by auto
    next
      case False
      then show ?thesis using a(5) [OF False] i(2) [OF t] a(2) by auto
    qed
  qed
  show ?thesis
  proof (rule sys_okI)
    show "loader_ok (ldr s1)" using a(1) s1 by simp
  next
    fix t assume "t \<in> set (tasks s1)"
    then consider "t \<in> set (tasks s)"
      | "leader" "t = \<lparr>tctx = c, tinfl = a, tshard = sh, tloader = loader\<rparr>"
      using s1 by (auto split: if_splits)
    then show "\<not> doneCh (heap (ldr s1) (tinfl t)) \<and> tinfl t < allocated (ldr s1)"
    proof cases
      case 1
      then show ?thesis using old s1 by simp
    next
      case 2
      then show ?thesis using a(3) a(4) s1 by simp
    qed
  next
    show "distinct (map tinfl (tasks s1))"
      using i(3) old s1 by (auto split: if_splits)
  next
    fix g' cl assume "waiting s1 g' = Some cl"
    then show "cinfl cl < allocated (ldr s1)"
      using s1 a(2) a(3) i(4) [of g' cl] by (auto split: if_splits)
  qed
qed

lemma step_Run_ok:
  assumes ok: "sys_ok s" and st: "step hk s (Run n) = Some s1"
  shows "sys_ok s1"
proof -
  note i = sys_okD [OF ok]
  let ?t = "tasks s ! n"
  let ?l = "(ldr s)\<lparr>metrics := metrics (ldr s) @ [RecordLoad (tctx ?t)]\<rparr>"
  from st obtain l1 v e where
    n: "n < length (tasks s)"
    and f: "finishInflight ?l (tinfl ?t) (tshard ?t) v e = Some l1"
    and s1: "s1 = s\<lparr>ldr := l1, tasks := take n (tasks s) @ drop (Suc n) (tasks s)\<rparr>"
    by (auto simp: leaderTask_def Let_def split: if_splits option.splits prod.splits)
  have tin: "?t \<in> set (tasks s)" using n by simp
  have lok: "loader_ok ?l" using i(1) by simp
  have al: "tinfl ?t < allocated ?l" using i(2) [OF tin] by simp
  note fok = finishInflight_ok [OF lok al f]
  note ef = finishInflight_effect [OF f]
  have dm: "distinct (map tinfl (take n (tasks s) @ drop (Suc n) (tasks s)))"
    using distinct_take_drop [OF i(3), of n] by (simp add: take_map drop_map)
  have notin: "tinfl ?t \<notin> set (map tinfl (take n (tasks s) @ drop (Suc n) (tasks s)))"
    using nth_notin_take_drop [OF i(3), of n] n by (simp add: take_map drop_map)
  show ?thesis
  proof (rule sys_okI)
    show "loader_ok (ldr s1)" using fok s1 by simp
  next
    fix t assume "t \<in> set (tasks s1)"
    then have t1: "t \<in> set (take n (tasks s) @ drop (Suc n) (tasks s))" using s1 by simp
    then have ts: "t \<in> set (tasks s)" by (rule set_take_drop)
    have "tinfl t \<in> set (map tinfl (take n (tasks s) @ drop (Suc n) (tasks s)))"
      using t1 by (simp only: set_map) (rule imageI)
    then have ne: "tinfl t \<noteq> tinfl ?t" using notin by metis
    show "\<not> doneCh (heap (ldr s1) (tinfl t)) \<and> tinfl t < allocated (ldr s1)"
      using i(2) [OF ts] ef(6) [OF ne] ef(3) s1 by simp
  next
    show "distinct (map tinfl (tasks s1))" using dm s1 by simp
  next
    fix g cl assume "waiting s1 g = Some cl"
    then show "cinfl cl < allocated (ldr s1)"
      using s1 i(4) [of g cl] ef(3) by simp
  qed
qed

lemma step_Wake_ok:
  assumes ok: "sys_ok s" and st: "step hk s (Wake g w) = Some s1"
  shows "sys_ok s1"
proof -
  note i = sys_okD [OF ok]
  from st obtain cl res where
    cl: "waiting s g = Some cl"
    and s1: "s1 = s\<lparr>ldr := releaseInflight (ldr s) (ckey cl) (cinfl cl) (cshard cl),
               waiting := (waiting s)(g := None),
               returned := returned s @ [(g, res)]\<rparr>"
    by (auto simp: load_end_def Let_def split: if_splits option.splits prod.splits wakeup.splits)
  have al: "cinfl cl < allocated (ldr s)" using i(4) [OF cl] .
  note rok = releaseInflight_ok [OF i(1) al, of "ckey cl" "cshard cl"]
  note ef = releaseInflight_effect [where l = "ldr s" and key = "ckey cl" and a = "cinfl cl"
      and sh = "cshard cl"]
  have dc: "\<And>b. doneCh (heap (releaseInflight (ldr s) (ckey cl) (cinfl cl) (cshard cl)) b)
              = doneCh (heap (ldr s) b)"
  proof -
    fix b show "doneCh (heap (releaseInflight (ldr s) (ckey cl) (cinfl cl) (cshard cl)) b)
              = doneCh (heap (ldr s) b)"
      by (cases "b = cinfl cl") (simp_all add: ef(4,5))
  qed
  show ?thesis
  proof (rule sys_okI)
    show "loader_ok (ldr s1)" using rok s1 by simp
  next
    fix t assume "t \<in> set (tasks s1)"
    then show "\<not> doneCh (heap (ldr s1) (tinfl t)) \<and> tinfl t < allocated (ldr s1)"
      using i(2) [of t] s1 dc ef(1) by simp
  next
    show "distinct (map tinfl (tasks s1))" using i(3) s1 by simp
  next
    fix g' cl' assume "waiting s1 g' = Some cl'"
    then show "cinfl cl' < allocated (ldr s1)"
      using s1 i(4) [of g' cl'] ef(1) by (auto split: if_splits)
  qed
qed

lemma step_ok: "sys_ok s \<Longrightarrow> step hk s ev = Some s1 \<Longrightarrow> sys_ok s1"
  by (cases ev) (auto intro: step_Call_ok step_Run_ok step_Wake_ok)

lemma run_ok: "sys_ok s \<Longrightarrow> run hk s evs = Some s1 \<Longrightarrow> sys_ok s1"
  by (induction evs arbitrary: s) (auto split: option.splits intro: step_ok)

lemma acquireInflight_cases:
  assumes ac: "acquireInflight hk pick l c key = Some (l1, a, leader, sh)"
  shows "(\<exists>l0. newInflight pick l c = (a, l0)
            \<and> l1 = l0\<lparr>shards := (shards l0)[sh := (shards l0 ! sh)(key \<mapsto> a)]\<rparr> \<and> leader)
         \<or> (l1 = l\<lparr>heap := (heap l)(a := (heap l a)\<lparr>refs := refs (heap l a) + 1\<rparr>)\<rparr>
            \<and> \<not> leader \<and> \<not> doneCh (heap l a))"
proof -
  obtain a0 l0 where n: "newInflight pick l c = (a0, l0)"
    by (cases "newInflight pick l c")
  show ?thesis
    using ac n
    by (auto simp: acquireInflight_def split: option.splits if_splits)
qed

lemma acquireInflight_pool:
  assumes ac: "acquireInflight hk pick l c key = Some (l1, a, leader, sh)"
  shows "poolPuts l1 = poolPuts l"
    and "\<And>b. pooled (heap l1 b) \<Longrightarrow> pooled (heap l b)"
    and "\<And>b. pooled (heap l b) \<Longrightarrow> \<not> pooled (heap l1 b) \<Longrightarrow> newInflights l1 = newInflights l @ [b]"
proof -
  from acquireInflight_cases [OF ac] consider
    (lead) l0 where "newInflight pick l c = (a, l0)"
      "l1 = l0\<lparr>shards := (shards l0)[sh := (shards l0 ! sh)(key \<mapsto> a)]\<rparr>"
  | (follow) "l1 = l\<lparr>heap := (heap l)(a := (heap l a)\<lparr>refs := refs (heap l a) + 1\<rparr>)\<rparr>"
    by blast
  then have "poolPuts l1 = poolPuts l
      \<and> (\<forall>b. pooled (heap l1 b) \<longrightarrow> pooled (heap l b))
      \<and> (\<forall>b. pooled (heap l b) \<longrightarrow> \<not> pooled (heap l1 b) \<longrightarrow> newInflights l1 = newInflights l @ [b])"
  proof cases
    case lead
    note nfr = newInflight_frame [OF lead(1)]
    note nfl = newInflight_fields [OF lead(1)]
    have h1: "heap l1 = heap l0" "poolPuts l1 = poolPuts l" "newInflights l1 = newInflights l @ [a]"
      using lead(2) nfr by simp_all
    have np: "\<not> pooled (heap l0 a)" using nfl by simp
    have same: "\<And>b. b \<noteq> a \<Longrightarrow> heap l0 b = heap l b" using nfr by simp
    have p1: "\<forall>b. pooled (heap l1 b) \<longrightarrow> pooled (heap l b)"
    proof (intro allI impI)
      fix b assume "pooled (heap l1 b)"
      then show "pooled (heap l b)"
        using np same [of b] h1(1) by (cases "b = a") simp_all
    qed
    have p2: "\<forall>b. pooled (heap l b) \<longrightarrow> \<not> pooled (heap l1 b) \<longrightarrow> newInflights l1 = newInflights l @ [b]"
    proof (intro allI impI)
      fix b assume "pooled (heap l b)" "\<not> pooled (heap l1 b)"
      then show "newInflights l1 = newInflights l @ [b]"
        using same [of b] h1(1,3) by (cases "b = a") simp_all
    qed
    show ?thesis using h1(2) p1 p2 by simp
  next
    case follow
    have p1: "\<forall>b. pooled (heap l1 b) = pooled (heap l b)"
    proof
      fix b show "pooled (heap l1 b) = pooled (heap l b)"
        unfolding follow by (cases "b = a") simp_all
    qed
    show ?thesis using p1 follow by simp
  qed
  then show "poolPuts l1 = poolPuts l"
    and "\<And>b. pooled (heap l1 b) \<Longrightarrow> pooled (heap l b)"
    and "\<And>b. pooled (heap l b) \<Longrightarrow> \<not> pooled (heap l1 b) \<Longrightarrow> newInflights l1 = newInflights l @ [b]"
    by blast+
qed

lemma step_Wake_ldr:
  assumes "step hk s (Wake g w) = Some s1"
  shows "\<exists>cl. waiting s g = Some cl
          \<and> ldr s1 = releaseInflight (ldr s) (ckey cl) (cinfl cl) (cshard cl)"
proof (cases "waiting s g")
  case None
  with assms show ?thesis by simp
next
  case (Some cl)
  with assms show ?thesis
    by (cases w) (auto simp: load_end_def Let_def split: if_splits)
qed

lemma step_pool:
  assumes st: "step hk s ev = Some s1"
  shows "(poolPuts (ldr s1) = poolPuts (ldr s)
          \<or> (\<exists>a. poolPuts (ldr s1) = poolPuts (ldr s) @ [a]
                \<and> \<not> pooled (heap (ldr s) a) \<and> pooled (heap (ldr s1) a)
                \<and> done_flag (heap (ldr s1) a) \<and> refs (heap (ldr s1) a) \<le> 0))
       \<and> (\<forall>a. \<not> pooled (heap (ldr s) a) \<and> pooled (heap (ldr s1) a)
              \<longrightarrow> poolPuts (ldr s1) = poolPuts (ldr s) @ [a])
       \<and> (\<forall>a. pooled (heap (ldr s) a) \<and> \<not> pooled (heap (ldr s1) a)
              \<longrightarrow> newInflights (ldr s1) = newInflights (ldr s) @ [a])"
proof (cases ev)
  case (Call g pick c key loader)
  with st obtain l1 a leader sh where
    ac: "acquireInflight hk pick (ldr s) c key = Some (l1, a, leader, sh)"
    and s1: "ldr s1 = l1"
    by (auto simp: load_begin_def split: if_splits option.splits prod.splits)
  show ?thesis
    using acquireInflight_pool [OF ac] s1 by blast
next
  case (Run n)
  let ?t = "tasks s ! n"
  let ?l = "(ldr s)\<lparr>metrics := metrics (ldr s) @ [RecordLoad (tctx ?t)]\<rparr>"
  from Run st obtain l1 v e where
    f: "finishInflight ?l (tinfl ?t) (tshard ?t) v e = Some l1"
    and s1: "ldr s1 = l1"
    by (auto simp: leaderTask_def Let_def split: if_splits option.splits prod.splits)
  note ef = finishInflight_effect [OF f]
  have h: "\<And>b. heap l1 b = (if b = tinfl ?t then heap l1 (tinfl ?t) else heap (ldr s) b)"
    using ef(6) by simp
  show ?thesis
    unfolding s1
    apply (intro conjI allI impI)
    subgoal using ef(7,9) by (auto split: if_splits)
    subgoal for a using ef(7,9) h [of a] by (auto split: if_splits)
    subgoal for a using ef(7) h [of a] by (auto split: if_splits)
    done
next
  case (Wake g w)
  with st have "step hk s (Wake g w) = Some s1" by simp
  from step_Wake_ldr [OF this] obtain cl :: caller where
    s1: "ldr s1 = releaseInflight (ldr s) (ckey cl) (cinfl cl) (cshard cl)"
    by blast
  note ef = releaseInflight_effect [where l = "ldr s" and key = "ckey cl" and a = "cinfl cl"
      and sh = "cshard cl"]
  have h: "\<And>b. heap (ldr s1) b = (if b = cinfl cl then heap (ldr s1) (cinfl cl) else heap (ldr s) b)"
    using ef(4) s1 by simp
  show ?thesis
    apply (intro conjI allI impI)
    subgoal using ef(5,7) unfolding s1 by (auto split: if_splits)
    subgoal for a using ef(5,7) h [of a] unfolding s1 by (auto split: if_splits)
    subgoal for a using ef(5) h [of a] unfolding s1 by (auto split: if_splits)
    done
qed

subsection \<open>The pool\<close>

lemma count_le_of_ok:
  assumes ok: "loader_ok l"
  shows "count_list (poolPuts l) a \<le> count_list (newInflights l) a"
proof (cases "a < allocated l")
  case True
  then show ?thesis using loader_okD(5) [OF ok True] by (simp split: if_splits)
next
  case False
  then have "a \<notin> set (poolPuts l)" using loader_okD(6) [OF ok, of a] by auto
  then show ?thesis by (simp add: count_list_0)
qed

text \<open>
  C5. In every state that an execution reaches from the initial system and for every
  next step: each record has been put into the pool at most as often as \<open>newInflight\<close>
  has handed it out, so at most once each time it is in use (for an allocated record the
  two numbers agree while it is pooled and differ by one while it is not); a step puts
  at most one record into the pool, and only a record whose \<open>pooled\<close> flag the step turns
  from false to true and which is then done with no reference left; a step that turns
  the flag from false to true is a step that puts that record; and the flag goes back to
  false only when \<open>newInflight\<close> hands the record out again.
\<close>

theorem inflight_pooled_once:
  assumes reach: "run hashKey (initSystem gomaxprocs) evs = Some s"
    and st: "step hashKey s ev = Some s1"
  shows "(\<forall>a. count_list (poolPuts (ldr s1)) a \<le> count_list (newInflights (ldr s1)) a)
       \<and> (\<forall>a < allocated (ldr s1).
             count_list (poolPuts (ldr s1)) a + (if pooled (heap (ldr s1) a) then 0 else 1)
               = count_list (newInflights (ldr s1)) a)
       \<and> (poolPuts (ldr s1) = poolPuts (ldr s)
          \<or> (\<exists>a. poolPuts (ldr s1) = poolPuts (ldr s) @ [a]
                \<and> \<not> pooled (heap (ldr s) a) \<and> pooled (heap (ldr s1) a)
                \<and> done_flag (heap (ldr s1) a) \<and> refs (heap (ldr s1) a) \<le> 0))
       \<and> (\<forall>a. \<not> pooled (heap (ldr s) a) \<and> pooled (heap (ldr s1) a)
              \<longrightarrow> poolPuts (ldr s1) = poolPuts (ldr s) @ [a])
       \<and> (\<forall>a. pooled (heap (ldr s) a) \<and> \<not> pooled (heap (ldr s1) a)
              \<longrightarrow> newInflights (ldr s1) = newInflights (ldr s) @ [a])"
proof -
  have "sys_ok s" using run_ok [OF initSystem_ok reach] .
  then have "sys_ok s1" using st by (rule step_ok)
  then have ok1: "loader_ok (ldr s1)" by (rule sys_okD(1))
  show ?thesis
    using count_le_of_ok [OF ok1] loader_okD(5) [OF ok1] step_pool [OF st] by blast
qed

theorem inflight_pooled_once_witness:
  "map_option (\<lambda>s. (poolPuts (ldr s), newInflights (ldr s), pooled (heap (ldr s) 0)))
     (run (\<lambda>k. of_nat (length k)) (initSystem 4 :: nat system)
        [Call 0 None Background ''k'' (\<lambda>c. (7, None)), Wake 0 (CtxDone Canceled), Run 0])
   = Some ([0], [0], True)"
proof -
  let ?hk = "\<lambda>k :: string. of_nat (length k) :: 64 word"
  let ?evs = "[Call 0 None Background ''k'' (\<lambda>c. (7::nat, None)), Wake 0 (CtxDone Canceled)]"
  let ?s = "the (run ?hk (initSystem 4 :: nat system) ?evs)"
  let ?s1 = "the (step ?hk ?s (Run 0))"
  have r: "run ?hk (initSystem 4 :: nat system) ?evs = Some ?s"
    by (simp add: eval_defs)
  have st: "step ?hk ?s (Run 0) = Some ?s1"
    by (simp add: eval_defs)
  have e: "run ?hk (initSystem 4 :: nat system) (?evs @ [Run 0]) = Some ?s1"
    by (simp add: eval_defs)
  have p: "\<not> pooled (heap (ldr ?s) 0)" "pooled (heap (ldr ?s1) 0)" "poolPuts (ldr ?s) = []"
    "newInflights (ldr ?s1) = [0]"
    by (simp_all add: eval_defs)
  from inflight_pooled_once [OF r st] p
  have "poolPuts (ldr ?s1) = [0]" by simp
  then show ?thesis using e p by simp
qed

subsection \<open>References and waiting callers\<close>









subsection \<open>The load concurrency metric\<close>








subsection \<open>Errors of the load function\<close>







end
